theory Spec2Isabelle
  imports Complex_Main
begin

section \<open>Data model of the diagram editor (src/src/App.js)\<close>

text \<open>
  The constants of lines 3 and 5. \<open>ACTIVITY_SIZE\<close> only styles the markup and is not
  needed by any handler.
\<close>

definition GRID_SIZE :: real where
  "GRID_SIZE = 100"

definition SURFACE_PX :: real where
  "SURFACE_PX = 2000"

text \<open>
  An entry of the \<open>items\<close> array: \<open>{ id, type, col, row }\<close> (line 112). The field
  \<open>id\<close> is written \<open>id_item\<close> here and \<open>type\<close> is written \<open>type_item\<close>. Identifiers are the
  numbers handed out by \<open>nextIdRef\<close>; the type is whatever string the drag payload carried.
\<close>

record item =
  id_item :: nat
  type_item :: string
  col :: int
  row :: int

text \<open>An entry of the \<open>connections\<close> array: \<open>{ fromId, toId }\<close> (line 157).\<close>

record conn =
  fromId :: nat
  toId :: nat

text \<open>The preview point \<open>{ x, y }\<close> of line 177, in surface pixels.\<close>

type_synonym point = "real \<times> real"

text \<open>
  Everything the component tree holds between two events: the two \<open>useState\<close> arrays of
  \<open>EBWebEditor\<close> (lines 258-259), the counter \<open>nextIdRef.current\<close> (line 75) and the two
  \<open>useState\<close> cells of \<open>Canvas\<close> (lines 77-78), where \<open>None\<close> stands for \<open>null\<close>.
\<close>

record state =
  items :: "item list"
  connections :: "conn list"
  nextId :: nat
  pendingSourceId :: "nat option"
  previewPoint :: "point option"

definition init :: state where
  "init = \<lparr>items = [], connections = [], nextId = 1, pendingSourceId = None, previewPoint = None\<rparr>"

section \<open>Array helpers\<close>

text \<open>
  \<open>Array.prototype.findIndex\<close>: the index of the first element satisfying the predicate;
  \<open>None\<close> stands for the result \<open>-1\<close>.
\<close>

fun findIndex :: "('a \<Rightarrow> bool) \<Rightarrow> 'a list \<Rightarrow> nat option" where
  "findIndex P [] = None"
| "findIndex P (a # as) = (if P a then Some 0 else map_option Suc (findIndex P as))"

text \<open>\<open>draft.splice(i, 1)\<close> (line 130): the element at index \<open>i\<close> is taken out.\<close>

definition splice1 :: "nat \<Rightarrow> 'a list \<Rightarrow> 'a list" where
  "splice1 i as = take i as @ drop (Suc i) as"

text \<open>The test \<open>it.col === cell.col && it.row === cell.row\<close> of lines 111 and 127.\<close>

definition atCell :: "int \<times> int \<Rightarrow> item \<Rightarrow> bool" where
  "atCell cell it = (col it = fst cell \<and> row it = snd cell)"

text \<open>The object spread \<open>{ ...it, col: cell.col, row: cell.row }\<close> of lines 132 and 136.\<close>

definition moveTo :: "int \<times> int \<Rightarrow> item \<Rightarrow> item" where
  "moveTo cell it = it\<lparr>col := fst cell, row := snd cell\<rparr>"

text \<open>
  The updater \<open>conns.filter((c) => c.fromId !== n && c.toId !== n)\<close> that both eviction
  branches pass to \<open>setConnections\<close> (lines 115 and 133).
\<close>

definition removeIncident :: "nat \<Rightarrow> conn list \<Rightarrow> conn list" where
  "removeIncident n conns = filter (\<lambda>c. fromId c \<noteq> n \<and> toId c \<noteq> n) conns"

section \<open>Placement: \<open>snapToCell\<close> and \<open>onDrop\<close>\<close>

text \<open>
  The surface's bounding rectangle, of which the handlers read \<open>left\<close> and \<open>top\<close> only.
  Pixel coordinates are real numbers: the handlers only subtract them, compare them,
  divide by \<open>GRID_SIZE\<close> under \<open>Math.floor\<close> and take \<open>Math.min\<close> and \<open>Math.max\<close>.
\<close>

type_synonym rect = "real \<times> real"

definition snapToCell :: "rect \<Rightarrow> real \<Rightarrow> real \<Rightarrow> (int \<times> int) option" where
  "snapToCell rect clientX clientY =
     (let x = clientX - fst rect;
          y = clientY - snd rect
      in if x < 0 \<or> y < 0 then None
         else Some (\<lfloor>x / GRID_SIZE\<rfloor>, \<lfloor>y / GRID_SIZE\<rfloor>))"

text \<open>
  The decoded drag payload. The toolbox writes \<open>{ type, source: "palette" }\<close> (line 64) and a
  placed item writes \<open>{ source: "canvas", id, type }\<close> (line 233); any other payload
  that decodes has a \<open>source\<close> that matches neither branch of \<open>onDrop\<close>. An empty or undecodable
  string is \<open>None\<close> (the two returns of lines 102-103).
\<close>

datatype payload = FromPalette string | FromCanvas nat | OtherSource

text \<open>
  The \<open>setItems\<close> updater of the palette branch (lines 109-120), together with the
  \<open>setConnections\<close> updater it schedules and the post-increment of \<open>nextIdRef.current\<close>.
\<close>

definition dropPalette :: "string \<Rightarrow> int \<times> int \<Rightarrow> state \<Rightarrow> state" where
  "dropPalette ty cell s =
     (let draft = items s;
          existingIdx = findIndex (atCell cell) draft;
          newItem = \<lparr>id_item = nextId s, type_item = ty, col = fst cell, row = snd cell\<rparr>;
          s1 = s\<lparr>nextId := nextId s + 1\<rparr>
      in case existingIdx of
           Some i \<Rightarrow>
             (let existingId = id_item (draft ! i)
              in s1\<lparr>connections := removeIncident existingId (connections s1),
                    items := draft[i := newItem]\<rparr>)
         | None \<Rightarrow> s1\<lparr>items := draft @ [newItem]\<rparr>)"

text \<open>
  The \<open>setItems\<close> updater of the canvas branch (lines 122-138). An index returned by
  \<open>findIndex\<close> is within the array, so every \<open>draft[i]\<close> below reads an element.
\<close>

definition dropCanvas :: "nat \<Rightarrow> int \<times> int \<Rightarrow> state \<Rightarrow> state" where
  "dropCanvas dataId cell s =
     (let draft = items s
      in case findIndex (\<lambda>it. id_item it = dataId) draft of
           None \<Rightarrow> s
         | Some movingIdx \<Rightarrow>
             (case findIndex (atCell cell) draft of
                None \<Rightarrow> s\<lparr>items := draft[movingIdx := moveTo cell (draft ! movingIdx)]\<rparr>
              | Some existingIdx \<Rightarrow>
                  if id_item (draft ! existingIdx) \<noteq> dataId then
                    (let removedId = id_item (draft ! existingIdx);
                         draft1 = splice1 existingIdx draft;
                         adjustedMovingIdx =
                           (if movingIdx > existingIdx then movingIdx - 1 else movingIdx);
                         draft2 = draft1[adjustedMovingIdx := moveTo cell (draft1 ! adjustedMovingIdx)]
                     in s\<lparr>connections := removeIncident removedId (connections s),
                          items := draft2\<rparr>)
                  else s\<lparr>items := draft[movingIdx := moveTo cell (draft ! movingIdx)]\<rparr>))"

text \<open>
  \<open>onDrop\<close> (lines 99-140). The handler is attached to the surface element itself, so
  \<open>surfaceRef.current\<close> is that element and its rectangle is an argument.
\<close>

definition onDrop :: "payload option \<Rightarrow> rect \<Rightarrow> real \<Rightarrow> real \<Rightarrow> state \<Rightarrow> state" where
  "onDrop raw rect clientX clientY s =
     (case raw of
        None \<Rightarrow> s
      | Some data \<Rightarrow>
          (case snapToCell rect clientX clientY of
             None \<Rightarrow> s
           | Some cell \<Rightarrow>
               (case data of
                  FromPalette ty \<Rightarrow> dropPalette ty cell s
                | FromCanvas dataId \<Rightarrow> dropCanvas dataId cell s
                | OtherSource \<Rightarrow> s)))"

section \<open>Connecting: the click and pointer handlers\<close>

text \<open>\<open>onStartHandleClick\<close> (lines 142-146).\<close>

definition onStartHandleClick :: "nat \<Rightarrow> state \<Rightarrow> state" where
  "onStartHandleClick n s = s\<lparr>pendingSourceId := Some n, previewPoint := None\<rparr>"

text \<open>
  The test \<open>!pendingSourceId\<close> of lines 173 and 179 (negated at 179): it holds of
  \<open>null\<close> and of the number \<open>0\<close>. Line 149 makes the same test; there it is written as
  the two cases \<open>None\<close> and \<open>src = 0\<close> of \<open>onActivityClickAsTarget\<close>.
\<close>

definition falsy :: "nat option \<Rightarrow> bool" where
  "falsy p = (p = None \<or> p = Some 0)"

text \<open>\<open>onActivityClickAsTarget\<close> (lines 148-161).\<close>

definition onActivityClickAsTarget :: "nat \<Rightarrow> state \<Rightarrow> state" where
  "onActivityClickAsTarget n s =
     (case pendingSourceId s of
        None \<Rightarrow> s
      | Some src \<Rightarrow>
          if src = 0 then s
          else if n = src then s\<lparr>pendingSourceId := None, previewPoint := None\<rparr>
          else s\<lparr>connections :=
                    filter (\<lambda>c. fromId c \<noteq> src) (connections s) @ [\<lparr>fromId = src, toId = n\<rparr>],
                  pendingSourceId := None,
                  previewPoint := None\<rparr>)"

text \<open>
  The \<open>onMouseMove\<close> handler of the surface (lines 172-178); the first argument is the
  rectangle of \<open>surfaceRef.current\<close>, \<open>None\<close> when the ref is empty.
\<close>

definition onMouseMove :: "rect option \<Rightarrow> real \<Rightarrow> real \<Rightarrow> state \<Rightarrow> state" where
  "onMouseMove surface clientX clientY s =
     (if falsy (pendingSourceId s) then s
      else case surface of
             None \<Rightarrow> s
           | Some rect \<Rightarrow>
               (let x = max 0 (min SURFACE_PX (clientX - fst rect));
                    y = max 0 (min SURFACE_PX (clientY - snd rect))
                in s\<lparr>previewPoint := Some (x, y)\<rparr>))"

text \<open>The \<open>onMouseLeave\<close> handler of the surface (line 179).\<close>

definition onMouseLeave :: "state \<Rightarrow> state" where
  "onMouseLeave s = (if falsy (pendingSourceId s) then s else s\<lparr>previewPoint := None\<rparr>)"

section \<open>Event sequences\<close>

text \<open>
  One constructor per handler. Events are handled one at a time, each seeing the state
  the previous one left.
\<close>

datatype event =
    Drop "payload option" rect real real
  | StartHandleClick nat
  | ActivityClick nat
  | MouseMove "rect option" real real
  | MouseLeave

fun step :: "event \<Rightarrow> state \<Rightarrow> state" where
  "step (Drop raw rect clientX clientY) s = onDrop raw rect clientX clientY s"
| "step (StartHandleClick n) s = onStartHandleClick n s"
| "step (ActivityClick n) s = onActivityClickAsTarget n s"
| "step (MouseMove surface clientX clientY) s = onMouseMove surface clientX clientY s"
| "step MouseLeave s = onMouseLeave s"

fun run :: "event list \<Rightarrow> state \<Rightarrow> state" where
  "run [] s = s"
| "run (e # es) s = run es (step e s)"

text \<open>
  The click handlers are attached to rendered items only (lines 221-235), and a canvas
  payload is written by a rendered item (line 233): such an event carries the id of an
  item that is in the array when it is handled. \<open>offered es s\<close> says that every click
  and every canvas drop of \<open>es\<close> is of that kind when the sequence is run from \<open>s\<close>.
\<close>

definition hasItem :: "nat \<Rightarrow> state \<Rightarrow> bool" where
  "hasItem n s = (n \<in> set (map id_item (items s)))"

fun rendered :: "event \<Rightarrow> state \<Rightarrow> bool" where
  "rendered (StartHandleClick n) s = hasItem n s"
| "rendered (ActivityClick n) s = hasItem n s"
| "rendered (Drop (Some (FromCanvas n)) rect clientX clientY) s = hasItem n s"
| "rendered e s = True"

fun offered :: "event list \<Rightarrow> state \<Rightarrow> bool" where
  "offered [] s = True"
| "offered (e # es) s = (rendered e s \<and> offered es (step e s))"

section \<open>The diagram properties, as predicates\<close>

definition cellOf :: "item \<Rightarrow> int \<times> int" where
  "cellOf it = (col it, row it)"

text \<open>Grid exclusivity: no two entries of the array lie on one cell.\<close>

definition gridExclusive :: "state \<Rightarrow> bool" where
  "gridExclusive s = distinct (map cellOf (items s))"

text \<open>Edge validity: both ends of every connection are ids of placed items.\<close>

definition edgesValid :: "state \<Rightarrow> bool" where
  "edgesValid s = list_all (\<lambda>c. hasItem (fromId c) s \<and> hasItem (toId c) s) (connections s)"

text \<open>
  A target click finds its ends placed when the clicked item is in the array and the
  armed source, if there is one, is in the array too; \<open>endsPlaced es s\<close> says so of every
  target click of \<open>es\<close> when the sequence is run from \<open>s\<close>.
\<close>

fun endsPlacedAt :: "event \<Rightarrow> state \<Rightarrow> bool" where
  "endsPlacedAt (ActivityClick n) s =
     (hasItem n s \<and> (case pendingSourceId s of None \<Rightarrow> True | Some src \<Rightarrow> hasItem src s))"
| "endsPlacedAt e s = True"

fun endsPlaced :: "event list \<Rightarrow> state \<Rightarrow> bool" where
  "endsPlaced [] s = True"
| "endsPlaced (e # es) s = (endsPlacedAt e s \<and> endsPlaced es (step e s))"

text \<open>The number of connections leaving \<open>n\<close>.\<close>

definition fanOut :: "nat \<Rightarrow> state \<Rightarrow> nat" where
  "fanOut n s = length (filter (\<lambda>c. fromId c = n) (connections s))"

text \<open>
  What every handler keeps true of the item array: ids are pairwise different and below
  the counter, and cells are pairwise different.
\<close>

definition wellFormed :: "state \<Rightarrow> bool" where
  "wellFormed s =
     (distinct (map id_item (items s)) \<and>
      list_all (\<lambda>it. id_item it < nextId s) (items s) \<and>
      gridExclusive s)"

text \<open>Fan-out cap, as a property of the connection array: no two entries share \<open>fromId\<close>.\<close>

definition fanOutCapped :: "state \<Rightarrow> bool" where
  "fanOutCapped s = distinct (map fromId (connections s))"

text \<open>
  The preview point, when there is one, belongs to an armed controller and lies on the
  surface.
\<close>

definition previewOk :: "state \<Rightarrow> bool" where
  "previewOk s =
     (case previewPoint s of
        None \<Rightarrow> True
      | Some p \<Rightarrow>
          \<not> falsy (pendingSourceId s) \<and>
          0 \<le> fst p \<and> fst p \<le> SURFACE_PX \<and> 0 \<le> snd p \<and> snd p \<le> SURFACE_PX)"

section \<open>Facts about the array helpers\<close>

lemma findIndex_None: "findIndex P xs = None \<longleftrightarrow> (\<forall>x\<in>set xs. \<not> P x)"
  by (induction xs) auto

lemma findIndex_Some:
  "findIndex P xs = Some i \<Longrightarrow> i < length xs \<and> P (xs ! i) \<and> (\<forall>j<i. \<not> P (xs ! j))"
proof (induction xs arbitrary: i)
  case Nil
  then show ?case by simp
next
  case (Cons a xs)
  show ?case
  proof (cases "P a")
    case True
    with Cons.prems show ?thesis by simp
  next
    case False
    with Cons.prems obtain k where k: "findIndex P xs = Some k" "i = Suc k"
      by auto
    from Cons.IH[OF k(1)] False k(2) show ?thesis
      by (auto simp: nth_Cons split: nat.splits)
  qed
qed

lemma findIndex_key:
  assumes "distinct (map f xs)" "i < length xs" "f (xs ! i) = v"
  shows "findIndex (\<lambda>x. f x = v) xs = Some i"
proof (cases "findIndex (\<lambda>x. f x = v) xs")
  case None
  with assms show ?thesis by (auto simp: findIndex_None)
next
  case (Some k)
  from findIndex_Some[OF Some] have k: "k < length xs" "f (xs ! k) = v" by auto
  with assms have "map f xs ! k = map f xs ! i" by simp
  with assms(1,2) k(1) have "k = i" by (auto simp: distinct_conv_nth)
  with Some show ?thesis by simp
qed

lemma length_splice1: "e < length xs \<Longrightarrow> length (splice1 e xs) = length xs - 1"
  by (simp add: splice1_def)

lemma nth_splice1:
  "e < length xs \<Longrightarrow> j < length xs - 1 \<Longrightarrow>
   splice1 e xs ! j = (if j < e then xs ! j else xs ! Suc j)"
  by (auto simp: splice1_def nth_append min_def)

lemma map_splice1: "map f (splice1 e xs) = splice1 e (map f xs)"
  by (simp add: splice1_def take_map drop_map)

lemma set_splice1_subset: "set (splice1 e xs) \<subseteq> set xs"
  by (auto simp: splice1_def dest: in_set_takeD in_set_dropD)

lemma distinct_splice1: "distinct xs \<Longrightarrow> distinct (splice1 e xs)"
  by (simp add: splice1_def set_take_disj_set_drop_if_distinct)

lemma set_splice1_distinct:
  "distinct xs \<Longrightarrow> e < length xs \<Longrightarrow> set (splice1 e xs) = set xs - {xs ! e}"
proof -
  assume d: "distinct xs" and e: "e < length xs"
  have xs: "xs = take e xs @ xs ! e # drop (Suc e) xs"
    using e by (rule id_take_nth_drop)
  from d have "distinct (take e xs @ xs ! e # drop (Suc e) xs)"
    using xs by simp
  then have notin: "xs ! e \<notin> set (take e xs)" "xs ! e \<notin> set (drop (Suc e) xs)"
    by auto
  have "set xs = set (take e xs) \<union> {xs ! e} \<union> set (drop (Suc e) xs)"
    by (subst xs) auto
  with notin show ?thesis
    by (auto simp: splice1_def)
qed

section \<open>What the two drop updaters compute\<close>

lemma atCell_cellOf: "atCell cell it \<longleftrightarrow> cellOf it = cell"
  by (cases cell) (auto simp: atCell_def cellOf_def)

lemma cellOf_moveTo [simp]: "cellOf (moveTo cell it) = cell"
  by (simp add: cellOf_def moveTo_def)

lemma id_item_moveTo [simp]: "id_item (moveTo cell it) = id_item it"
  by (simp add: moveTo_def)

lemma dropPalette_free:
  "findIndex (atCell cell) (items s) = None \<Longrightarrow>
   dropPalette ty cell s =
     s\<lparr>nextId := nextId s + 1,
       items := items s @ [\<lparr>id_item = nextId s, type_item = ty, col = fst cell, row = snd cell\<rparr>]\<rparr>"
  by (simp add: dropPalette_def)

lemma dropPalette_occupied:
  "findIndex (atCell cell) (items s) = Some i \<Longrightarrow>
   dropPalette ty cell s =
     s\<lparr>nextId := nextId s + 1,
       connections := removeIncident (id_item (items s ! i)) (connections s),
       items := (items s)[i := \<lparr>id_item = nextId s, type_item = ty, col = fst cell, row = snd cell\<rparr>]\<rparr>"
  by (simp add: dropPalette_def Let_def)

lemma dropCanvas_absent:
  "findIndex (\<lambda>it. id_item it = n) (items s) = None \<Longrightarrow> dropCanvas n cell s = s"
  by (simp add: dropCanvas_def)

lemma dropCanvas_plain:
  "findIndex (\<lambda>it. id_item it = n) (items s) = Some m \<Longrightarrow>
   findIndex (atCell cell) (items s) = None \<or>
   (\<exists>e. findIndex (atCell cell) (items s) = Some e \<and> id_item (items s ! e) = n) \<Longrightarrow>
   dropCanvas n cell s = s\<lparr>items := (items s)[m := moveTo cell (items s ! m)]\<rparr>"
  by (auto simp: dropCanvas_def Let_def)

lemma dropCanvas_evict:
  "findIndex (\<lambda>it. id_item it = n) (items s) = Some m \<Longrightarrow>
   findIndex (atCell cell) (items s) = Some e \<Longrightarrow>
   id_item (items s ! e) \<noteq> n \<Longrightarrow>
   dropCanvas n cell s =
     s\<lparr>connections := removeIncident (id_item (items s ! e)) (connections s),
       items := (splice1 e (items s))
                  [(if m > e then m - 1 else m) :=
                     moveTo cell (splice1 e (items s) ! (if m > e then m - 1 else m))]\<rparr>"
  by (simp add: dropCanvas_def Let_def)

text \<open>After the splice the adjusted index still points at the moving item.\<close>

lemma adjusted_index:
  assumes "m < length xs" "e < length xs" "m \<noteq> e"
  shows "(if m > e then m - 1 else m) < length (splice1 e xs)"
    and "splice1 e xs ! (if m > e then m - 1 else m) = xs ! m"
proof -
  let ?a = "if m > e then m - 1 else m"
  from assms have a: "?a < length xs - 1" by auto
  with assms show "?a < length (splice1 e xs)" by (simp add: length_splice1)
  from assms a show "splice1 e xs ! ?a = xs ! m"
    by (auto simp: nth_splice1)
qed

section \<open>Well-formedness is kept by every handler\<close>

lemma wellFormed_init: "wellFormed init"
  by (simp add: wellFormed_def init_def gridExclusive_def)

lemma wellFormed_dropPalette:
  assumes wf: "wellFormed s"
  shows "wellFormed (dropPalette ty cell s)"
proof -
  let ?new = "\<lparr>id_item = nextId s, type_item = ty, col = fst cell, row = snd cell\<rparr>"
  from wf have ids: "distinct (map id_item (items s))"
    and below: "\<forall>it\<in>set (items s). id_item it < nextId s"
    and cells: "distinct (map cellOf (items s))"
    by (auto simp: wellFormed_def gridExclusive_def list_all_iff)
  from below have fresh: "nextId s \<notin> set (map id_item (items s))" by auto
  have cnew: "cellOf ?new = cell" by (simp add: cellOf_def)
  show ?thesis
  proof (cases "findIndex (atCell cell) (items s)")
    case None
    then have "cell \<notin> set (map cellOf (items s))"
      by (auto simp: findIndex_None atCell_cellOf)
    with None ids below cells fresh cnew show ?thesis
      by (auto simp: dropPalette_free wellFormed_def gridExclusive_def list_all_iff less_Suc_eq)
  next
    case (Some i)
    from findIndex_Some[OF Some] have i: "i < length (items s)" "cellOf (items s ! i) = cell"
      by (auto simp: atCell_cellOf)
    have "distinct ((map id_item (items s))[i := nextId s])"
      using ids fresh by (intro distinct_list_update) auto
    then have 1: "distinct (map id_item ((items s)[i := ?new]))"
      by (simp add: map_update)
    have "(map cellOf (items s))[i := cell] = map cellOf (items s)"
      using i by (metis list_update_id nth_map)
    then have 2: "distinct (map cellOf ((items s)[i := ?new]))"
      using cells cnew by (simp add: map_update)
    have 3: "\<forall>it\<in>set ((items s)[i := ?new]). id_item it < Suc (nextId s)"
      using below set_update_subset_insert[of "items s" i ?new] by (auto simp: less_Suc_eq)
    from 1 2 3 Some show ?thesis
      by (simp add: dropPalette_occupied wellFormed_def gridExclusive_def list_all_iff)
  qed
qed

lemma wellFormed_dropCanvas:
  assumes wf: "wellFormed s"
  shows "wellFormed (dropCanvas n cell s)"
proof (cases "findIndex (\<lambda>it. id_item it = n) (items s)")
  case None
  with wf show ?thesis by (simp add: dropCanvas_absent)
next
  case (Some m)
  let ?xs = "items s"
  from wf have ids: "distinct (map id_item ?xs)"
    and below: "\<forall>it\<in>set ?xs. id_item it < nextId s"
    and cells: "distinct (map cellOf ?xs)"
    by (auto simp: wellFormed_def gridExclusive_def list_all_iff)
  from findIndex_Some[OF Some] have m: "m < length ?xs" "id_item (?xs ! m) = n"
    by auto
  have below_m: "id_item (?xs ! m) < nextId s"
    using below m(1) by simp
  show ?thesis
  proof (cases "findIndex (atCell cell) ?xs")
    case None
    then have free: "cell \<notin> set (map cellOf ?xs)"
      by (auto simp: findIndex_None atCell_cellOf)
    let ?ys = "?xs[m := moveTo cell (?xs ! m)]"
    have "(map id_item ?xs)[m := id_item (?xs ! m)] = map id_item ?xs"
      using m by (metis list_update_id nth_map)
    then have 1: "distinct (map id_item ?ys)"
      using ids by (simp add: map_update)
    have "distinct ((map cellOf ?xs)[m := cell])"
      using cells free by (intro distinct_list_update) auto
    then have 2: "distinct (map cellOf ?ys)"
      by (simp add: map_update)
    have 3: "\<forall>it\<in>set ?ys. id_item it < nextId s"
      using below below_m set_update_subset_insert[of ?xs m "moveTo cell (?xs ! m)"] by auto
    have "dropCanvas n cell s = s\<lparr>items := ?ys\<rparr>"
      using Some None by (simp add: dropCanvas_plain)
    with 1 2 3 show ?thesis
      by (simp add: wellFormed_def gridExclusive_def list_all_iff)
  next
    case e: (Some e)
    from findIndex_Some[OF e] have e': "e < length ?xs" "cellOf (?xs ! e) = cell"
      by (auto simp: atCell_cellOf)
    show ?thesis
    proof (cases "id_item (?xs ! e) = n")
      case True
      with ids m e' have "e = m"
        by (auto simp: distinct_conv_nth)
      let ?ys = "?xs[m := moveTo cell (?xs ! m)]"
      have "(map id_item ?xs)[m := id_item (?xs ! m)] = map id_item ?xs"
        using m by (metis list_update_id nth_map)
      then have 1: "distinct (map id_item ?ys)"
        using ids by (simp add: map_update)
      have "(map cellOf ?xs)[m := cell] = map cellOf ?xs"
        using e' \<open>e = m\<close> by (metis list_update_id nth_map)
      then have 2: "distinct (map cellOf ?ys)"
        using cells by (simp add: map_update)
      have 3: "\<forall>it\<in>set ?ys. id_item it < nextId s"
        using below below_m set_update_subset_insert[of ?xs m "moveTo cell (?xs ! m)"] by auto
      have "dropCanvas n cell s = s\<lparr>items := ?ys\<rparr>"
        using Some e True by (simp add: dropCanvas_plain)
      with 1 2 3 show ?thesis
        by (simp add: wellFormed_def gridExclusive_def list_all_iff)
    next
      case False
      with m have "m \<noteq> e" by auto
      let ?a = "if m > e then m - 1 else m"
      let ?zs = "splice1 e ?xs"
      let ?ys = "?zs[?a := moveTo cell (?zs ! ?a)]"
      from adjusted_index[OF m(1) e'(1) \<open>m \<noteq> e\<close>]
      have a: "?a < length ?zs" "?zs ! ?a = ?xs ! m" by auto
      have "(map id_item ?zs)[?a := id_item (?zs ! ?a)] = map id_item ?zs"
        using a(1) by (metis list_update_id nth_map)
      moreover have "distinct (map id_item ?zs)"
        using ids by (simp add: map_splice1 distinct_splice1)
      ultimately have 1: "distinct (map id_item ?ys)"
        by (simp add: map_update)
      have "set (map cellOf ?zs) = set (map cellOf ?xs) - {cell}"
        using set_splice1_distinct[OF cells, of e] e' by (simp add: map_splice1)
      then have "cell \<notin> set (map cellOf ?zs)" by simp
      moreover have "distinct (map cellOf ?zs)"
        using cells by (simp add: map_splice1 distinct_splice1)
      ultimately have "distinct ((map cellOf ?zs)[?a := cell])"
        by (intro distinct_list_update) auto
      then have 2: "distinct (map cellOf ?ys)"
        by (simp add: map_update)
      have "\<forall>it\<in>set ?zs. id_item it < nextId s"
        using below set_splice1_subset[of e ?xs] by auto
      then have 3: "\<forall>it\<in>set ?ys. id_item it < nextId s"
        using below_m a(2) set_update_subset_insert[of ?zs ?a "moveTo cell (?zs ! ?a)"] by auto
      have "dropCanvas n cell s =
            s\<lparr>connections := removeIncident (id_item (?xs ! e)) (connections s), items := ?ys\<rparr>"
        using Some e False by (simp add: dropCanvas_evict)
      with 1 2 3 show ?thesis
        by (simp add: wellFormed_def gridExclusive_def list_all_iff)
    qed
  qed
qed

lemma wellFormed_step: "wellFormed s \<Longrightarrow> wellFormed (step e s)"
proof (cases e)
  case (Drop raw rect cx cy)
  assume "wellFormed s"
  with Drop show ?thesis
    by (auto simp: onDrop_def wellFormed_dropPalette wellFormed_dropCanvas
        split: option.splits payload.splits)
next
  case (StartHandleClick n)
  assume "wellFormed s"
  with StartHandleClick show ?thesis
    by (simp add: onStartHandleClick_def wellFormed_def gridExclusive_def)
next
  case (ActivityClick n)
  assume "wellFormed s"
  with ActivityClick show ?thesis
    by (simp add: onActivityClickAsTarget_def wellFormed_def gridExclusive_def split: option.splits)
next
  case (MouseMove surface cx cy)
  assume "wellFormed s"
  with MouseMove show ?thesis
    by (simp add: onMouseMove_def wellFormed_def gridExclusive_def Let_def split: option.splits)
next
  case MouseLeave
  assume "wellFormed s"
  with MouseLeave show ?thesis
    by (simp add: onMouseLeave_def wellFormed_def gridExclusive_def)
qed

lemma wellFormed_run: "wellFormed s \<Longrightarrow> wellFormed (run es s)"
  by (induction es arbitrary: s) (simp_all add: wellFormed_step)

section \<open>The fan-out cap is kept by every handler\<close>

lemma distinct_map_removeIncident:
  "distinct (map fromId conns) \<Longrightarrow> distinct (map fromId (removeIncident n conns))"
  by (simp add: removeIncident_def distinct_map_filter)

lemma distinct_map_commit:
  assumes "distinct (map fromId conns)"
  shows "distinct (map fromId (filter (\<lambda>c. fromId c \<noteq> src) conns @ [\<lparr>fromId = src, toId = n\<rparr>]))"
  using assms by (auto simp: distinct_map_filter)

lemma fanOutCapped_dropPalette: "fanOutCapped s \<Longrightarrow> fanOutCapped (dropPalette ty cell s)"
  by (cases "findIndex (atCell cell) (items s)")
     (simp_all add: dropPalette_free dropPalette_occupied fanOutCapped_def distinct_map_removeIncident)

lemma fanOutCapped_dropCanvas: "fanOutCapped s \<Longrightarrow> fanOutCapped (dropCanvas n cell s)"
  by (simp add: dropCanvas_def Let_def fanOutCapped_def distinct_map_removeIncident
      split: option.splits)

lemma fanOutCapped_step: "fanOutCapped s \<Longrightarrow> fanOutCapped (step e s)"
proof (cases e)
  case (Drop raw rect cx cy)
  assume "fanOutCapped s"
  with Drop show ?thesis
    by (auto simp: onDrop_def fanOutCapped_dropPalette fanOutCapped_dropCanvas
        split: option.splits payload.splits)
next
  case (StartHandleClick n)
  assume "fanOutCapped s"
  with StartHandleClick show ?thesis
    by (simp add: onStartHandleClick_def fanOutCapped_def)
next
  case (ActivityClick n)
  assume "fanOutCapped s"
  with ActivityClick show ?thesis
    by (auto simp: onActivityClickAsTarget_def fanOutCapped_def distinct_map_filter
        split: option.splits)
next
  case (MouseMove surface cx cy)
  assume "fanOutCapped s"
  with MouseMove show ?thesis
    by (simp add: onMouseMove_def fanOutCapped_def Let_def split: option.splits)
next
  case MouseLeave
  assume "fanOutCapped s"
  with MouseLeave show ?thesis
    by (simp add: onMouseLeave_def fanOutCapped_def)
qed

lemma fanOutCapped_run: "fanOutCapped s \<Longrightarrow> fanOutCapped (run es s)"
  by (induction es arbitrary: s) (simp_all add: fanOutCapped_step)

lemma fanOutCapped_init: "fanOutCapped init"
  by (simp add: fanOutCapped_def init_def)

lemma length_filter_key_le_1:
  "distinct (map f xs) \<Longrightarrow> length (filter (\<lambda>x. f x = v) xs) \<le> Suc 0"
proof (induction xs)
  case Nil
  then show ?case by simp
next
  case (Cons a xs)
  show ?case
  proof (cases "f a = v")
    case True
    from Cons.prems have "f a \<notin> f ` set xs" by simp
    with True have "\<forall>x\<in>set xs. f x \<noteq> v" by blast
    then have "filter (\<lambda>x. f x = v) xs = []" by (simp add: filter_empty_conv)
    with True show ?thesis by simp
  next
    case False
    with Cons show ?thesis by simp
  qed
qed

section \<open>The drop updaters on well-formed states\<close>

lemma atCell_eq: "atCell cell = (\<lambda>it. cellOf it = cell)"
  by (rule ext) (simp add: atCell_cellOf)

lemma findIndex_atCell:
  assumes "gridExclusive s" "occ \<in> set (items s)" "cellOf occ = cell"
  obtains i where "findIndex (atCell cell) (items s) = Some i" "i < length (items s)" "items s ! i = occ"
proof -
  from assms(2) obtain i where i: "i < length (items s)" "items s ! i = occ"
    by (auto simp: in_set_conv_nth)
  with assms have "findIndex (\<lambda>it. cellOf it = cell) (items s) = Some i"
    by (intro findIndex_key) (auto simp: gridExclusive_def)
  with i that show thesis by (simp add: atCell_eq)
qed

lemma findIndex_id:
  assumes "distinct (map id_item (items s))" "it \<in> set (items s)"
  obtains i where "findIndex (\<lambda>x. id_item x = id_item it) (items s) = Some i"
    "i < length (items s)" "items s ! i = it"
proof -
  from assms(2) obtain i where i: "i < length (items s)" "items s ! i = it"
    by (auto simp: in_set_conv_nth)
  with assms have "findIndex (\<lambda>x. id_item x = id_item it) (items s) = Some i"
    by (intro findIndex_key) auto
  with i that show thesis by simp
qed

lemma wellFormed_distinct_items: "wellFormed s \<Longrightarrow> distinct (items s)"
  by (simp add: wellFormed_def distinct_map)

lemma wellFormed_fresh: "wellFormed s \<Longrightarrow> \<not> hasItem (nextId s) s"
  by (auto simp: wellFormed_def hasItem_def list_all_iff)

lemma dropPalette_on_occupied:
  assumes wf: "wellFormed s" and occ: "occ \<in> set (items s)" "cellOf occ = cell"
  shows "items (dropPalette ty cell s) =
           (items s)[the (findIndex (atCell cell) (items s)) :=
              \<lparr>id_item = nextId s, type_item = ty, col = fst cell, row = snd cell\<rparr>]"
    and "set (items (dropPalette ty cell s)) =
           insert \<lparr>id_item = nextId s, type_item = ty, col = fst cell, row = snd cell\<rparr>
             (set (items s) - {occ})"
    and "connections (dropPalette ty cell s) = removeIncident (id_item occ) (connections s)"
proof -
  from wf have "gridExclusive s" by (simp add: wellFormed_def)
  from findIndex_atCell[OF this occ] obtain i where
    i: "findIndex (atCell cell) (items s) = Some i" "i < length (items s)" "items s ! i = occ"
    by blast
  from i show "items (dropPalette ty cell s) =
           (items s)[the (findIndex (atCell cell) (items s)) :=
              \<lparr>id_item = nextId s, type_item = ty, col = fst cell, row = snd cell\<rparr>]"
    by (simp add: dropPalette_occupied)
  from i wellFormed_distinct_items[OF wf]
  show "set (items (dropPalette ty cell s)) =
           insert \<lparr>id_item = nextId s, type_item = ty, col = fst cell, row = snd cell\<rparr>
             (set (items s) - {occ})"
    by (simp add: dropPalette_occupied set_update_distinct)
  from i show "connections (dropPalette ty cell s) = removeIncident (id_item occ) (connections s)"
    by (simp add: dropPalette_occupied)
qed

lemma dropPalette_on_free:
  assumes "\<forall>it\<in>set (items s). cellOf it \<noteq> cell"
  shows "items (dropPalette ty cell s) =
           items s @ [\<lparr>id_item = nextId s, type_item = ty, col = fst cell, row = snd cell\<rparr>]"
    and "connections (dropPalette ty cell s) = connections s"
proof -
  from assms have "findIndex (atCell cell) (items s) = None"
    by (simp add: findIndex_None atCell_cellOf)
  then show "items (dropPalette ty cell s) =
           items s @ [\<lparr>id_item = nextId s, type_item = ty, col = fst cell, row = snd cell\<rparr>]"
    and "connections (dropPalette ty cell s) = connections s"
    by (simp_all add: dropPalette_free)
qed

lemma dropCanvas_missing: "\<not> hasItem n s \<Longrightarrow> dropCanvas n cell s = s"
  by (rule dropCanvas_absent) (auto simp: findIndex_None hasItem_def)

lemma dropCanvas_on_occupied:
  assumes wf: "wellFormed s" and it: "it \<in> set (items s)"
    and occ: "occ \<in> set (items s)" "cellOf occ = cell" "id_item occ \<noteq> id_item it"
  shows "set (items (dropCanvas (id_item it) cell s)) =
           insert (moveTo cell it) (set (items s) - {it, occ})"
    and "connections (dropCanvas (id_item it) cell s) = removeIncident (id_item occ) (connections s)"
proof -
  let ?xs = "items s"
  from wf have ge: "gridExclusive s" and ids: "distinct (map id_item ?xs)"
    by (simp_all add: wellFormed_def)
  from findIndex_atCell[OF ge occ(1,2)] obtain e where
    e: "findIndex (atCell cell) ?xs = Some e" "e < length ?xs" "?xs ! e = occ"
    by blast
  from findIndex_id[OF ids it] obtain m where
    m: "findIndex (\<lambda>x. id_item x = id_item it) ?xs = Some m" "m < length ?xs" "?xs ! m = it"
    by blast
  from occ(3) e(3) m(3) have ne: "m \<noteq> e" by auto
  let ?a = "if m > e then m - 1 else m"
  let ?zs = "splice1 e ?xs"
  from adjusted_index[OF m(2) e(2) ne] m(3)
  have a: "?a < length ?zs" "?zs ! ?a = it" by auto
  have eq: "dropCanvas (id_item it) cell s =
        s\<lparr>connections := removeIncident (id_item occ) (connections s),
          items := ?zs[?a := moveTo cell (?zs ! ?a)]\<rparr>"
    using dropCanvas_evict[OF m(1) e(1)] e(3) occ(3) by simp
  have dz: "distinct ?zs"
    using wellFormed_distinct_items[OF wf] by (rule distinct_splice1)
  have sz: "set ?zs = set ?xs - {occ}"
    using set_splice1_distinct[OF wellFormed_distinct_items[OF wf] e(2)] e(3) by simp
  have "set (?zs[?a := moveTo cell (?zs ! ?a)]) = insert (moveTo cell it) (set ?zs - {it})"
    using set_update_distinct[OF dz a(1)] a(2) by simp
  with sz eq show "set (items (dropCanvas (id_item it) cell s)) =
           insert (moveTo cell it) (set (items s) - {it, occ})"
    by auto
  from eq show "connections (dropCanvas (id_item it) cell s) =
      removeIncident (id_item occ) (connections s)"
    by simp
qed

lemma dropCanvas_on_free:
  assumes wf: "wellFormed s" and it: "it \<in> set (items s)"
    and free: "\<forall>occ\<in>set (items s). cellOf occ = cell \<longrightarrow> id_item occ = id_item it"
  shows "set (items (dropCanvas (id_item it) cell s)) =
           insert (moveTo cell it) (set (items s) - {it})"
    and "connections (dropCanvas (id_item it) cell s) = connections s"
proof -
  let ?xs = "items s"
  from wf have ids: "distinct (map id_item ?xs)"
    by (simp add: wellFormed_def)
  from findIndex_id[OF ids it] obtain m where
    m: "findIndex (\<lambda>x. id_item x = id_item it) ?xs = Some m" "m < length ?xs" "?xs ! m = it"
    by blast
  have "findIndex (atCell cell) ?xs = None \<or>
        (\<exists>e. findIndex (atCell cell) ?xs = Some e \<and> id_item (?xs ! e) = id_item it)"
  proof (cases "findIndex (atCell cell) ?xs")
    case None
    then show ?thesis by simp
  next
    case (Some e)
    from findIndex_Some[OF Some] have "e < length ?xs" "cellOf (?xs ! e) = cell"
      by (auto simp: atCell_cellOf)
    with free have "id_item (?xs ! e) = id_item it" by auto
    with Some show ?thesis by simp
  qed
  from dropCanvas_plain[OF m(1) this] m(3)
  have eq: "dropCanvas (id_item it) cell s = s\<lparr>items := ?xs[m := moveTo cell it]\<rparr>"
    by simp
  with set_update_distinct[OF wellFormed_distinct_items[OF wf] m(2)] m(3)
  show "set (items (dropCanvas (id_item it) cell s)) =
           insert (moveTo cell it) (set (items s) - {it})"
    by simp
  from eq show "connections (dropCanvas (id_item it) cell s) = connections s"
    by simp
qed

lemma dropCanvas_self:
  assumes wf: "wellFormed s" and it: "it \<in> set (items s)"
  shows "dropCanvas (id_item it) (cellOf it) s = s"
proof -
  let ?xs = "items s"
  from wf have ge: "gridExclusive s" and ids: "distinct (map id_item ?xs)"
    by (simp_all add: wellFormed_def)
  from findIndex_id[OF ids it] obtain m where
    m: "findIndex (\<lambda>x. id_item x = id_item it) ?xs = Some m" "m < length ?xs" "?xs ! m = it"
    by blast
  from findIndex_atCell[OF ge it refl] obtain e where
    e: "findIndex (atCell (cellOf it)) ?xs = Some e" "?xs ! e = it"
    by blast
  have "moveTo (cellOf it) it = it"
    by (simp add: moveTo_def cellOf_def)
  with dropCanvas_plain[OF m(1), of "cellOf it"] e m(3)
  have "dropCanvas (id_item it) (cellOf it) s = s\<lparr>items := ?xs[m := ?xs ! m]\<rparr>"
    by simp
  then show ?thesis by simp
qed

section \<open>\<open>onDrop\<close> at a snapped cell\<close>

lemma onDrop_palette:
  "snapToCell rect clientX clientY = Some cell \<Longrightarrow>
   onDrop (Some (FromPalette ty)) rect clientX clientY s = dropPalette ty cell s"
  by (simp add: onDrop_def)

lemma onDrop_canvas:
  "snapToCell rect clientX clientY = Some cell \<Longrightarrow>
   onDrop (Some (FromCanvas n)) rect clientX clientY s = dropCanvas n cell s"
  by (simp add: onDrop_def)

lemma cellOf_eq: "cellOf it = (c, r) \<longleftrightarrow> col it = c \<and> row it = r"
  by (simp add: cellOf_def)

lemma moveTo_pair: "moveTo (c, r) it = it\<lparr>col := c, row := r\<rparr>"
  by (simp add: moveTo_def)

section \<open>The controller state under the handlers\<close>

lemma dropPalette_controller:
  "pendingSourceId (dropPalette ty cell s) = pendingSourceId s"
  "previewPoint (dropPalette ty cell s) = previewPoint s"
  by (simp_all add: dropPalette_def Let_def split: option.splits)

lemma dropCanvas_controller:
  "pendingSourceId (dropCanvas n cell s) = pendingSourceId s"
  "previewPoint (dropCanvas n cell s) = previewPoint s"
  by (simp_all add: dropCanvas_def Let_def split: option.splits)

lemma onDrop_controller:
  "pendingSourceId (onDrop raw rect clientX clientY s) = pendingSourceId s"
  "previewPoint (onDrop raw rect clientX clientY s) = previewPoint s"
  by (simp_all add: onDrop_def dropPalette_controller dropCanvas_controller
      split: option.splits payload.splits)

lemma previewOk_init: "previewOk init"
  by (simp add: previewOk_def init_def)

lemma previewOk_onMouseMove: "previewOk s \<Longrightarrow> previewOk (onMouseMove surface clientX clientY s)"
  by (auto simp: previewOk_def onMouseMove_def SURFACE_PX_def Let_def split: option.splits)

lemma previewOk_step: "previewOk s \<Longrightarrow> previewOk (step e s)"
proof (cases e)
  case (Drop raw rect cx cy)
  assume "previewOk s"
  with Drop show ?thesis
    by (auto simp: previewOk_def onDrop_controller split: option.splits)
next
  case (StartHandleClick n)
  then show ?thesis
    by (simp add: onStartHandleClick_def previewOk_def)
next
  case (ActivityClick n)
  assume "previewOk s"
  with ActivityClick show ?thesis
    by (auto simp: onActivityClickAsTarget_def previewOk_def split: option.splits)
next
  case (MouseMove surface cx cy)
  assume "previewOk s"
  with MouseMove show ?thesis
    by (simp add: previewOk_onMouseMove)
next
  case MouseLeave
  assume "previewOk s"
  with MouseLeave show ?thesis
    by (simp add: onMouseLeave_def previewOk_def)
qed

lemma previewOk_run: "previewOk s \<Longrightarrow> previewOk (run es s)"
  by (induction es arbitrary: s) (simp_all add: previewOk_step)

section \<open>Edge validity under the handlers\<close>

text \<open>
  Both eviction branches of \<open>onDrop\<close> drop the connections at the evicted item, so a drop
  keeps edge validity; a commit keeps it when the armed source and the clicked target
  are both in the item array. Hence edge validity holds after every sequence whose
  target clicks find their ends placed (\<open>edgesValid_run\<close>).
\<close>

lemma id_in_update_other:
  assumes "n \<in> set (map id_item xs)" "n \<noteq> id_item (xs ! i)"
  shows "n \<in> set (map id_item (xs[i := v]))"
proof -
  from assms(1) obtain j where j: "j < length xs" "id_item (xs ! j) = n"
    by (auto simp: in_set_conv_nth)
  with assms(2) have "j \<noteq> i" by auto
  with j have "j < length (xs[i := v])" "id_item (xs[i := v] ! j) = n"
    by simp_all
  then show ?thesis
    by (metis length_map nth_map nth_mem)
qed

lemma id_in_splice1_other:
  assumes "n \<in> set (map id_item xs)" "e < length xs" "n \<noteq> id_item (xs ! e)"
  shows "n \<in> set (map id_item (splice1 e xs))"
proof -
  have "set xs = set (take e xs) \<union> {xs ! e} \<union> set (drop (Suc e) xs)"
    by (subst id_take_nth_drop[OF assms(2)]) auto
  with assms(1,3) show ?thesis
    by (auto simp: splice1_def)
qed

lemma ids_after_move: "map id_item (xs[i := moveTo cell (xs ! i)]) = map id_item xs"
proof (cases "i < length xs")
  case True
  then show ?thesis
    by (simp add: map_update) (metis list_update_id nth_map)
next
  case False
  then have "xs[i := moveTo cell (xs ! i)] = xs"
    by (intro list_update_beyond) simp
  then show ?thesis by simp
qed

lemma edgesValid_dropPalette:
  assumes "edgesValid s"
  shows "edgesValid (dropPalette ty cell s)"
proof (cases "findIndex (atCell cell) (items s)")
  case None
  with assms show ?thesis
    by (auto simp: dropPalette_free edgesValid_def hasItem_def list_all_iff)
next
  case (Some i)
  with assms show ?thesis
    by (auto simp: dropPalette_occupied edgesValid_def hasItem_def list_all_iff removeIncident_def
        simp del: set_map intro!: id_in_update_other)
qed

lemma edgesValid_dropCanvas:
  assumes "edgesValid s"
  shows "edgesValid (dropCanvas n cell s)"
proof (cases "findIndex (\<lambda>it. id_item it = n) (items s)")
  case None
  with assms show ?thesis by (simp add: dropCanvas_absent)
next
  case (Some m)
  show ?thesis
  proof (cases "findIndex (atCell cell) (items s)")
    case None
    from dropCanvas_plain[OF Some] None assms show ?thesis
      by (simp add: edgesValid_def hasItem_def ids_after_move)
  next
    case e: (Some e)
    from findIndex_Some[OF e] have e': "e < length (items s)" by simp
    show ?thesis
    proof (cases "id_item (items s ! e) = n")
      case True
      with dropCanvas_plain[OF Some] e assms show ?thesis
        by (simp add: edgesValid_def hasItem_def ids_after_move)
    next
      case False
      from dropCanvas_evict[OF Some e False] assms e' show ?thesis
        by (auto simp: edgesValid_def hasItem_def list_all_iff removeIncident_def ids_after_move
            simp del: set_map intro!: id_in_splice1_other)
    qed
  qed
qed

lemma edgesValid_commit:
  assumes "edgesValid s" "hasItem n s"
    and "case pendingSourceId s of None \<Rightarrow> True | Some src \<Rightarrow> hasItem src s"
  shows "edgesValid (onActivityClickAsTarget n s)"
  using assms
  by (auto simp: onActivityClickAsTarget_def edgesValid_def hasItem_def list_all_iff
      split: option.splits)

lemma edgesValid_other_handlers:
  assumes "edgesValid s"
  shows "edgesValid (onDrop raw rect clientX clientY s)"
    and "edgesValid (onStartHandleClick n s)"
    and "edgesValid (onMouseMove surface clientX clientY s)"
    and "edgesValid (onMouseLeave s)"
proof -
  from assms show "edgesValid (onDrop raw rect clientX clientY s)"
    by (auto simp: onDrop_def edgesValid_dropPalette edgesValid_dropCanvas
        split: option.splits payload.splits)
  from assms show "edgesValid (onStartHandleClick n s)"
    by (simp add: onStartHandleClick_def edgesValid_def hasItem_def)
  from assms show "edgesValid (onMouseMove surface clientX clientY s)"
    by (simp add: onMouseMove_def edgesValid_def hasItem_def Let_def split: option.splits)
  from assms show "edgesValid (onMouseLeave s)"
    by (simp add: onMouseLeave_def edgesValid_def hasItem_def)
qed

lemma edgesValid_step: "edgesValid s \<Longrightarrow> endsPlacedAt e s \<Longrightarrow> edgesValid (step e s)"
  by (cases e) (simp_all add: edgesValid_other_handlers edgesValid_commit)

lemma edgesValid_run: "edgesValid s \<Longrightarrow> endsPlaced es s \<Longrightarrow> edgesValid (run es s)"
  by (induction es arbitrary: s) (simp_all add: edgesValid_step)

section \<open>Concrete runs\<close>

lemmas handler_defs =
  init_def onDrop_def snapToCell_def GRID_SIZE_def dropPalette_def dropCanvas_def atCell_def
  removeIncident_def moveTo_def splice1_def onStartHandleClick_def onActivityClickAsTarget_def
  onMouseMove_def onMouseLeave_def falsy_def SURFACE_PX_def

lemma snap_150_150: "snapToCell (0, 0) 150 150 = Some (1, 1)"
  by (simp add: snapToCell_def GRID_SIZE_def)

lemma snap_350_150: "snapToCell (0, 0) 350 150 = Some (3, 1)"
  by (simp add: snapToCell_def GRID_SIZE_def)

lemma run_two_linked:
  "run [Drop (Some (FromPalette ''Start'')) (0, 0) 150 150,
        Drop (Some (FromPalette ''Stop'')) (0, 0) 350 150,
        StartHandleClick 1, ActivityClick 2] init =
   \<lparr>items = [\<lparr>id_item = 1, type_item = ''Start'', col = 1, row = 1\<rparr>,
             \<lparr>id_item = 2, type_item = ''Stop'', col = 3, row = 1\<rparr>],
    connections = [\<lparr>fromId = 1, toId = 2\<rparr>], nextId = 3,
    pendingSourceId = None, previewPoint = None\<rparr>"
  by (simp add: handler_defs)

lemma run_rearmed:
  "run [Drop (Some (FromPalette ''Start'')) (0, 0) 150 150,
        Drop (Some (FromPalette ''Stop'')) (0, 0) 350 150,
        Drop (Some (FromPalette ''Recv'')) (0, 0) 550 150,
        StartHandleClick 1, ActivityClick 2, StartHandleClick 1] init =
   \<lparr>items = [\<lparr>id_item = 1, type_item = ''Start'', col = 1, row = 1\<rparr>,
             \<lparr>id_item = 2, type_item = ''Stop'', col = 3, row = 1\<rparr>,
             \<lparr>id_item = 3, type_item = ''Recv'', col = 5, row = 1\<rparr>],
    connections = [\<lparr>fromId = 1, toId = 2\<rparr>], nextId = 4,
    pendingSourceId = Some 1, previewPoint = None\<rparr>"
  by (simp add: handler_defs)

lemma run_armed_moved:
  "run [Drop (Some (FromPalette ''Start'')) (0, 0) 150 150, StartHandleClick 1,
        MouseMove (Some (10, 20)) 2500 5] init =
   \<lparr>items = [\<lparr>id_item = 1, type_item = ''Start'', col = 1, row = 1\<rparr>],
    connections = [], nextId = 2,
    pendingSourceId = Some 1, previewPoint = Some (2000, 0)\<rparr>"
  by (simp add: handler_defs)

lemma run_armed_evicted:
  "run [Drop (Some (FromPalette ''Start'')) (0, 0) 150 150,
        Drop (Some (FromPalette ''Stop'')) (0, 0) 350 150,
        StartHandleClick 1,
        Drop (Some (FromPalette ''Recv'')) (0, 0) 150 150] init =
   \<lparr>items = [\<lparr>id_item = 3, type_item = ''Recv'', col = 1, row = 1\<rparr>,
             \<lparr>id_item = 2, type_item = ''Stop'', col = 3, row = 1\<rparr>],
    connections = [], nextId = 4,
    pendingSourceId = Some 1, previewPoint = None\<rparr>"
  by (simp add: handler_defs)

section \<open>Edge validity\<close>

text \<open>
  Claim C1 (edge validity), evaluated on the handlers. Two items are dropped from the
  palette, the first is armed as a source, a third palette drop lands on the armed item's
  cell and evicts it, and the second item is clicked. Every click is on an item that is
  placed at that moment, yet the run ends with a connection whose \<open>fromId\<close> is the
  evicted item's id: edge validity does not hold of the reached state.
\<close>

theorem edge_validity_broken_by_evicted_source:
  "offered [Drop (Some (FromPalette ''Start'')) (0, 0) 150 150,
            Drop (Some (FromPalette ''Stop'')) (0, 0) 350 150,
            StartHandleClick 1,
            Drop (Some (FromPalette ''Recv'')) (0, 0) 150 150,
            ActivityClick 2] init \<and>
   \<not> edgesValid (run [Drop (Some (FromPalette ''Start'')) (0, 0) 150 150,
                       Drop (Some (FromPalette ''Stop'')) (0, 0) 350 150,
                       StartHandleClick 1,
                       Drop (Some (FromPalette ''Recv'')) (0, 0) 150 150,
                       ActivityClick 2] init)"
  by (simp add: handler_defs edgesValid_def hasItem_def)

text \<open>
  Claim C2 (commit with an evicted source), evaluated on the handlers. After the first
  four events of the run above the controller is armed with source 1, no item has id 1
  and there is no connection; the click on item 2 then appends the connection from 1
  to 2, since \<open>onActivityClickAsTarget\<close> does not look the source up.
\<close>

theorem evicted_source_commit_adds_edge:
  "pendingSourceId (run [Drop (Some (FromPalette ''Start'')) (0, 0) 150 150,
        Drop (Some (FromPalette ''Stop'')) (0, 0) 350 150,
        StartHandleClick 1,
        Drop (Some (FromPalette ''Recv'')) (0, 0) 150 150] init) = Some 1 \<and>
   \<not> hasItem 1 (run [Drop (Some (FromPalette ''Start'')) (0, 0) 150 150,
        Drop (Some (FromPalette ''Stop'')) (0, 0) 350 150,
        StartHandleClick 1,
        Drop (Some (FromPalette ''Recv'')) (0, 0) 150 150] init) \<and>
   connections (run [Drop (Some (FromPalette ''Start'')) (0, 0) 150 150,
        Drop (Some (FromPalette ''Stop'')) (0, 0) 350 150,
        StartHandleClick 1,
        Drop (Some (FromPalette ''Recv'')) (0, 0) 150 150] init) = [] \<and>
   connections (onActivityClickAsTarget 2 (run [Drop (Some (FromPalette ''Start'')) (0, 0) 150 150,
        Drop (Some (FromPalette ''Stop'')) (0, 0) 350 150,
        StartHandleClick 1,
        Drop (Some (FromPalette ''Recv'')) (0, 0) 150 150] init)) = [\<lparr>fromId = 1, toId = 2\<rparr>]"
  unfolding run_armed_evicted
  by (simp add: onActivityClickAsTarget_def hasItem_def)

section \<open>Grid exclusivity\<close>

lemma gridExclusive_iff:
  "gridExclusive s \<longleftrightarrow>
   (\<forall>i<length (items s). \<forall>j<length (items s). i \<noteq> j \<longrightarrow>
      cellOf (items s ! i) \<noteq> cellOf (items s ! j))"
  by (simp add: gridExclusive_def distinct_conv_nth)

text \<open>
  Claim C3 (grid exclusivity). After any sequence of events handled from the empty
  diagram, and so in particular after every operation of any sequence of palette drops
  and canvas drops, no two entries of the item array lie on the same (col, row) cell.
\<close>

theorem grid_exclusivity: "gridExclusive (run es init)"
proof -
  have "wellFormed (run es init)"
    by (rule wellFormed_run[OF wellFormed_init])
  then show ?thesis by (simp add: wellFormed_def)
qed

section \<open>Fan-out cap\<close>

text \<open>
  Claim C4 (fan-out cap). In every state reached from the empty diagram, at most one
  connection leaves any given id; and a commit, that is a target click on \<open>t\<close> while
  armed with a source \<open>src\<close> other than \<open>t\<close>, drops the connections leaving \<open>src\<close> and
  then appends the connection from \<open>src\<close> to \<open>t\<close>.
\<close>

theorem fan_out_cap:
  "fanOut n (run es init) \<le> 1 \<and>
   (pendingSourceId s = Some src \<and> src \<noteq> 0 \<and> t \<noteq> src \<longrightarrow>
      connections (onActivityClickAsTarget t s) =
        filter (\<lambda>c. fromId c \<noteq> src) (connections s) @ [\<lparr>fromId = src, toId = t\<rparr>])"
proof
  have "fanOutCapped (run es init)"
    by (rule fanOutCapped_run[OF fanOutCapped_init])
  then show "fanOut n (run es init) \<le> 1"
    using length_filter_key_le_1[of fromId "connections (run es init)" n]
    by (simp add: fanOut_def fanOutCapped_def)
next
  show "pendingSourceId s = Some src \<and> src \<noteq> 0 \<and> t \<noteq> src \<longrightarrow>
      connections (onActivityClickAsTarget t s) =
        filter (\<lambda>c. fromId c \<noteq> src) (connections s) @ [\<lparr>fromId = src, toId = t\<rparr>]"
    by (simp add: onActivityClickAsTarget_def)
qed

theorem fan_out_cap_witness:
  "fanOut 1 (run [Drop (Some (FromPalette ''Start'')) (0, 0) 150 150,
                  Drop (Some (FromPalette ''Stop'')) (0, 0) 350 150,
                  Drop (Some (FromPalette ''Recv'')) (0, 0) 550 150,
                  StartHandleClick 1, ActivityClick 2, StartHandleClick 1, ActivityClick 3] init) \<le> 1 \<and>
   connections
     (onActivityClickAsTarget 3
        (run [Drop (Some (FromPalette ''Start'')) (0, 0) 150 150,
              Drop (Some (FromPalette ''Stop'')) (0, 0) 350 150,
              Drop (Some (FromPalette ''Recv'')) (0, 0) 550 150,
              StartHandleClick 1, ActivityClick 2, StartHandleClick 1] init)) =
     [\<lparr>fromId = 1, toId = 3\<rparr>]"
  using fan_out_cap
    [of 1 "[Drop (Some (FromPalette ''Start'')) (0, 0) 150 150,
            Drop (Some (FromPalette ''Stop'')) (0, 0) 350 150,
            Drop (Some (FromPalette ''Recv'')) (0, 0) 550 150,
            StartHandleClick 1, ActivityClick 2, StartHandleClick 1, ActivityClick 3]"
        "run [Drop (Some (FromPalette ''Start'')) (0, 0) 150 150,
              Drop (Some (FromPalette ''Stop'')) (0, 0) 350 150,
              Drop (Some (FromPalette ''Recv'')) (0, 0) 550 150,
              StartHandleClick 1, ActivityClick 2, StartHandleClick 1] init" 1 3]
  unfolding run_rearmed
  by simp

section \<open>Placement\<close>

text \<open>
  Claim C5 (palette placement). Let \<open>s\<close> be reached from the empty diagram and let a
  palette payload of kind \<open>k\<close> be dropped where \<open>snapToCell\<close> yields the cell \<open>(c, r)\<close>.
  The new item carries the id \<open>nextId s\<close>, which no placed item has. If an item \<open>occ\<close>
  lies on \<open>(c, r)\<close>, the items afterwards are the old ones without \<open>occ\<close> plus the new
  item, no item has the id of \<open>occ\<close> any more, and the connections afterwards are exactly
  the old ones that neither leave nor enter \<open>occ\<close>. If the cell is free, the new item is
  appended and the connections are unchanged.
\<close>

theorem palette_placement:
  assumes "s = run es init"
    and "snapToCell rect clientX clientY = Some (c, r)"
    and "s' = onDrop (Some (FromPalette k)) rect clientX clientY s"
    and "new = \<lparr>id_item = nextId s, type_item = k, col = c, row = r\<rparr>"
  shows "\<not> hasItem (nextId s) s \<and>
         (\<forall>occ\<in>set (items s). col occ = c \<and> row occ = r \<longrightarrow>
            set (items s') = insert new (set (items s) - {occ}) \<and>
            \<not> hasItem (id_item occ) s' \<and>
            connections s' =
              filter (\<lambda>e. fromId e \<noteq> id_item occ \<and> toId e \<noteq> id_item occ) (connections s)) \<and>
         ((\<forall>it\<in>set (items s). \<not> (col it = c \<and> row it = r)) \<longrightarrow>
            items s' = items s @ [new] \<and> connections s' = connections s)"
proof -
  have wf: "wellFormed s"
    unfolding assms(1) by (rule wellFormed_run[OF wellFormed_init])
  have s': "s' = dropPalette k (c, r) s"
    unfolding assms(3) by (rule onDrop_palette[OF assms(2)])
  have wf': "wellFormed s'"
    unfolding s' by (rule wellFormed_dropPalette[OF wf])
  have fresh: "\<not> hasItem (nextId s) s"
    by (rule wellFormed_fresh[OF wf])
  have occupied: "set (items s') = insert new (set (items s) - {occ}) \<and>
            \<not> hasItem (id_item occ) s' \<and>
            connections s' =
              filter (\<lambda>e. fromId e \<noteq> id_item occ \<and> toId e \<noteq> id_item occ) (connections s)"
    if occ: "occ \<in> set (items s)" "col occ = c \<and> row occ = r" for occ
  proof -
    from occ have cell: "cellOf occ = (c, r)" by (simp add: cellOf_eq)
    have 1: "set (items s') = insert new (set (items s) - {occ})"
      using dropPalette_on_occupied(2)[OF wf occ(1) cell, of k] by (simp add: s' assms(4))
    have 3: "connections s' =
        filter (\<lambda>e. fromId e \<noteq> id_item occ \<and> toId e \<noteq> id_item occ) (connections s)"
      using dropPalette_on_occupied(3)[OF wf occ(1) cell, of k] by (simp add: s' removeIncident_def)
    from fresh occ(1) have "id_item occ \<noteq> nextId s"
      by (force simp: hasItem_def)
    moreover have "\<forall>it\<in>set (items s) - {occ}. id_item it \<noteq> id_item occ"
    proof
      fix it assume "it \<in> set (items s) - {occ}"
      with wf occ(1) show "id_item it \<noteq> id_item occ"
        by (auto simp: wellFormed_def distinct_map inj_on_def)
    qed
    ultimately have 2: "\<not> hasItem (id_item occ) s'"
      using 1 by (auto simp: hasItem_def assms(4))
    from 1 2 3 show ?thesis by simp
  qed
  have free: "items s' = items s @ [new] \<and> connections s' = connections s"
    if "\<forall>it\<in>set (items s). \<not> (col it = c \<and> row it = r)"
  proof -
    from that have "\<forall>it\<in>set (items s). cellOf it \<noteq> (c, r)"
      by (simp add: cellOf_eq)
    from dropPalette_on_free[OF this, of k] show ?thesis
      by (simp add: s' assms(4))
  qed
  from fresh occupied free show ?thesis by blast
qed

theorem palette_placement_witness:
  "\<not> hasItem 3 (run [Drop (Some (FromPalette ''Start'')) (0, 0) 150 150,
                      Drop (Some (FromPalette ''Stop'')) (0, 0) 350 150,
                      StartHandleClick 1, ActivityClick 2] init) \<and>
   set (items (onDrop (Some (FromPalette ''Recv'')) (0, 0) 150 150
         (run [Drop (Some (FromPalette ''Start'')) (0, 0) 150 150,
               Drop (Some (FromPalette ''Stop'')) (0, 0) 350 150,
               StartHandleClick 1, ActivityClick 2] init))) =
     {\<lparr>id_item = 3, type_item = ''Recv'', col = 1, row = 1\<rparr>,
      \<lparr>id_item = 2, type_item = ''Stop'', col = 3, row = 1\<rparr>} \<and>
   connections (onDrop (Some (FromPalette ''Recv'')) (0, 0) 150 150
         (run [Drop (Some (FromPalette ''Start'')) (0, 0) 150 150,
               Drop (Some (FromPalette ''Stop'')) (0, 0) 350 150,
               StartHandleClick 1, ActivityClick 2] init)) = []"
  using palette_placement[where k = "''Recv''" and
      es = "[Drop (Some (FromPalette ''Start'')) (0, 0) 150 150,
             Drop (Some (FromPalette ''Stop'')) (0, 0) 350 150,
             StartHandleClick 1, ActivityClick 2]", OF refl snap_150_150 refl refl]
  unfolding run_two_linked
  by auto

text \<open>
  Claim C6 (canvas move). Let \<open>s\<close> be reached from the empty diagram and let a canvas
  payload with id \<open>m\<close> be dropped where \<open>snapToCell\<close> yields the cell \<open>(c, r)\<close>. If no
  item has id \<open>m\<close>, the state is unchanged. Otherwise, for the item \<open>it\<close> with id \<open>m\<close>:
  if an item \<open>occ\<close> with another id lies on \<open>(c, r)\<close>, the items afterwards are the old
  ones without \<open>it\<close> and \<open>occ\<close> plus \<open>it\<close> moved to \<open>(c, r)\<close>, and the connections are
  exactly the old ones that neither leave nor enter \<open>occ\<close>; if no item with another id
  lies on \<open>(c, r)\<close>, the items afterwards are the old ones with \<open>it\<close> moved to \<open>(c, r)\<close>,
  and the connections are unchanged.
\<close>

theorem canvas_move:
  assumes "s = run es init"
    and "snapToCell rect clientX clientY = Some (c, r)"
    and "s' = onDrop (Some (FromCanvas m)) rect clientX clientY s"
  shows "(\<not> hasItem m s \<longrightarrow> s' = s) \<and>
         (\<forall>it\<in>set (items s). id_item it = m \<longrightarrow>
            (\<forall>occ\<in>set (items s). col occ = c \<and> row occ = r \<and> id_item occ \<noteq> m \<longrightarrow>
               set (items s') = insert (it\<lparr>col := c, row := r\<rparr>) (set (items s) - {it, occ}) \<and>
               connections s' =
                 filter (\<lambda>e. fromId e \<noteq> id_item occ \<and> toId e \<noteq> id_item occ) (connections s)) \<and>
            ((\<forall>occ\<in>set (items s). col occ = c \<and> row occ = r \<longrightarrow> id_item occ = m) \<longrightarrow>
               set (items s') = insert (it\<lparr>col := c, row := r\<rparr>) (set (items s) - {it}) \<and>
               connections s' = connections s))"
proof -
  have wf: "wellFormed s"
    unfolding assms(1) by (rule wellFormed_run[OF wellFormed_init])
  have s': "s' = dropCanvas m (c, r) s"
    unfolding assms(3) by (rule onDrop_canvas[OF assms(2)])
  have missing: "\<not> hasItem m s \<longrightarrow> s' = s"
    by (simp add: s' dropCanvas_missing)
  have evict: "set (items s') = insert (it\<lparr>col := c, row := r\<rparr>) (set (items s) - {it, occ}) \<and>
               connections s' =
                 filter (\<lambda>e. fromId e \<noteq> id_item occ \<and> toId e \<noteq> id_item occ) (connections s)"
    if "it \<in> set (items s)" "id_item it = m" "occ \<in> set (items s)"
       "col occ = c \<and> row occ = r \<and> id_item occ \<noteq> m" for it occ
  proof -
    from that have "cellOf occ = (c, r)" "id_item occ \<noteq> id_item it"
      by (simp_all add: cellOf_eq)
    from dropCanvas_on_occupied[OF wf that(1) that(3) this] that(2) show ?thesis
      by (simp add: s' moveTo_pair removeIncident_def)
  qed
  have plain: "set (items s') = insert (it\<lparr>col := c, row := r\<rparr>) (set (items s) - {it}) \<and>
               connections s' = connections s"
    if "it \<in> set (items s)" "id_item it = m"
       "\<forall>occ\<in>set (items s). col occ = c \<and> row occ = r \<longrightarrow> id_item occ = m" for it
  proof -
    from that have "\<forall>occ\<in>set (items s). cellOf occ = (c, r) \<longrightarrow> id_item occ = id_item it"
      by (simp add: cellOf_eq)
    from dropCanvas_on_free[OF wf that(1) this] that(2) show ?thesis
      by (simp add: s' moveTo_pair)
  qed
  from missing evict plain show ?thesis by blast
qed

theorem canvas_move_witness:
  "set (items (onDrop (Some (FromCanvas 2)) (0, 0) 150 150
         (run [Drop (Some (FromPalette ''Start'')) (0, 0) 150 150,
               Drop (Some (FromPalette ''Stop'')) (0, 0) 350 150,
               StartHandleClick 1, ActivityClick 2] init))) =
     {\<lparr>id_item = 2, type_item = ''Stop'', col = 1, row = 1\<rparr>} \<and>
   connections (onDrop (Some (FromCanvas 2)) (0, 0) 150 150
         (run [Drop (Some (FromPalette ''Start'')) (0, 0) 150 150,
               Drop (Some (FromPalette ''Stop'')) (0, 0) 350 150,
               StartHandleClick 1, ActivityClick 2] init)) = []"
  using canvas_move[where m = 2 and
      es = "[Drop (Some (FromPalette ''Start'')) (0, 0) 150 150,
             Drop (Some (FromPalette ''Stop'')) (0, 0) 350 150,
             StartHandleClick 1, ActivityClick 2]", OF refl snap_150_150 refl]
  unfolding run_two_linked
  by auto

text \<open>
  Claim C8 (self-drop idempotence). In a state reached from the empty diagram, dropping
  the canvas payload of a placed item where \<open>snapToCell\<close> yields that item's own cell
  leaves the whole state (items, connections, id counter, armed source and preview
  point) as it was.
\<close>

theorem self_drop_idempotent:
  assumes "s = run es init"
    and "it \<in> set (items s)"
    and "snapToCell rect clientX clientY = Some (col it, row it)"
  shows "onDrop (Some (FromCanvas (id_item it))) rect clientX clientY s = s"
proof -
  have wf: "wellFormed s"
    unfolding assms(1) by (rule wellFormed_run[OF wellFormed_init])
  have "onDrop (Some (FromCanvas (id_item it))) rect clientX clientY s =
        dropCanvas (id_item it) (cellOf it) s"
    using onDrop_canvas[OF assms(3)] by (simp add: cellOf_def)
  with dropCanvas_self[OF wf assms(2)] show ?thesis by simp
qed

theorem self_drop_idempotent_witness:
  "onDrop (Some (FromCanvas 2)) (0, 0) 350 150
     (run [Drop (Some (FromPalette ''Start'')) (0, 0) 150 150,
           Drop (Some (FromPalette ''Stop'')) (0, 0) 350 150,
           StartHandleClick 1, ActivityClick 2] init) =
   run [Drop (Some (FromPalette ''Start'')) (0, 0) 150 150,
        Drop (Some (FromPalette ''Stop'')) (0, 0) 350 150,
        StartHandleClick 1, ActivityClick 2] init"
proof -
  let ?es = "[Drop (Some (FromPalette ''Start'')) (0, 0) 150 150,
              Drop (Some (FromPalette ''Stop'')) (0, 0) 350 150,
              StartHandleClick 1, ActivityClick 2]"
  let ?it = "\<lparr>id_item = 2, type_item = ''Stop'', col = 3, row = 1\<rparr>"
  have mem: "?it \<in> set (items (run ?es init))"
    by (subst run_two_linked) simp
  have snap: "snapToCell (0, 0) 350 150 = Some (col ?it, row ?it)"
    by (simp add: snap_350_150)
  from self_drop_idempotent[OF refl mem snap] show ?thesis
    by simp
qed

section \<open>Arming and committing\<close>

text \<open>
  \<open>onStartHandleClick\<close> stores the clicked id as the source and clears the preview
  point; it leaves the items, the connections and the id counter as they were. The
  later tests \<open>!pendingSourceId\<close> take the stored source as armed exactly when the id is
  not 0. The handler does not look the id up: its only call site is the start handle of
  a rendered item (line 235), so in a sequence the user interface offers every arming
  finds its item placed.
\<close>

lemma onStartHandleClick_effect:
  "pendingSourceId (onStartHandleClick n s) = Some n \<and>
   previewPoint (onStartHandleClick n s) = None \<and>
   items (onStartHandleClick n s) = items s \<and>
   connections (onStartHandleClick n s) = connections s \<and>
   nextId (onStartHandleClick n s) = nextId s \<and>
   falsy (pendingSourceId (onStartHandleClick n s)) = (n = 0)"
  by (simp add: onStartHandleClick_def falsy_def)

lemma offered_append: "offered (es @ fs) s \<longleftrightarrow> offered es s \<and> offered fs (run es s)"
  by (induction es arbitrary: s) simp_all

lemma offered_arm_placed: "offered (es @ [StartHandleClick n]) s \<Longrightarrow> hasItem n (run es s)"
  by (simp add: offered_append)

text \<open>
  Claim C9 (re-arming discards the pending source). From any state, arming 5, arming 7
  and then clicking 3 drops the connections leaving 7 and appends the connection from 7
  to 3; the connections leaving 5 are the same as before; the controller ends idle with
  no preview point; the items are unchanged.
\<close>

theorem rearm_discards_pending:
  "connections (run [StartHandleClick 5, StartHandleClick 7, ActivityClick 3] s) =
     filter (\<lambda>c. fromId c \<noteq> 7) (connections s) @ [\<lparr>fromId = 7, toId = 3\<rparr>] \<and>
   filter (\<lambda>c. fromId c = 5) (connections (run [StartHandleClick 5, StartHandleClick 7, ActivityClick 3] s)) =
     filter (\<lambda>c. fromId c = 5) (connections s) \<and>
   pendingSourceId (run [StartHandleClick 5, StartHandleClick 7, ActivityClick 3] s) = None \<and>
   previewPoint (run [StartHandleClick 5, StartHandleClick 7, ActivityClick 3] s) = None \<and>
   items (run [StartHandleClick 5, StartHandleClick 7, ActivityClick 3] s) = items s"
  by (auto simp: onStartHandleClick_def onActivityClickAsTarget_def intro!: filter_cong)

section \<open>The preview point\<close>

text \<open>
  Claim C10 (preview point). In every state reached from the empty diagram, a preview
  point is present only while a source is armed, and both its coordinates lie between 0
  and 2000. A pointer move while idle changes nothing, and a pointer move while armed
  stores the pointer's offset on the surface clamped to the range from 0 to 2000.
\<close>

theorem preview_point_bounded:
  "(previewPoint (run es init) = Some (x, y) \<longrightarrow>
      pendingSourceId (run es init) \<noteq> None \<and> 0 \<le> x \<and> x \<le> 2000 \<and> 0 \<le> y \<and> y \<le> 2000) \<and>
   (pendingSourceId s = None \<longrightarrow> onMouseMove surface clientX clientY s = s) \<and>
   (pendingSourceId s = Some src \<and> src \<noteq> 0 \<longrightarrow>
      previewPoint (onMouseMove (Some rect) clientX clientY s) =
        Some (max 0 (min 2000 (clientX - fst rect)), max 0 (min 2000 (clientY - snd rect))))"
proof (intro conjI)
  have "previewOk (run es init)"
    by (rule previewOk_run[OF previewOk_init])
  then show "previewPoint (run es init) = Some (x, y) \<longrightarrow>
      pendingSourceId (run es init) \<noteq> None \<and> 0 \<le> x \<and> x \<le> 2000 \<and> 0 \<le> y \<and> y \<le> 2000"
    by (auto simp: previewOk_def falsy_def SURFACE_PX_def)
next
  show "pendingSourceId s = None \<longrightarrow> onMouseMove surface clientX clientY s = s"
    by (simp add: onMouseMove_def falsy_def)
next
  show "pendingSourceId s = Some src \<and> src \<noteq> 0 \<longrightarrow>
      previewPoint (onMouseMove (Some rect) clientX clientY s) =
        Some (max 0 (min 2000 (clientX - fst rect)), max 0 (min 2000 (clientY - snd rect)))"
    by (simp add: onMouseMove_def falsy_def SURFACE_PX_def Let_def)
qed

theorem preview_point_bounded_witness:
  "previewPoint (run [Drop (Some (FromPalette ''Start'')) (0, 0) 150 150, StartHandleClick 1,
                      MouseMove (Some (10, 20)) 2500 5] init) = Some (2000, 0) \<and>
   pendingSourceId (run [Drop (Some (FromPalette ''Start'')) (0, 0) 150 150, StartHandleClick 1,
                      MouseMove (Some (10, 20)) 2500 5] init) \<noteq> None \<and>
   onMouseMove (Some (10, 20)) 2500 5 init = init \<and>
   previewPoint (onMouseMove (Some (10, 20)) 2500 5
      \<lparr>items = [], connections = [], nextId = 2, pendingSourceId = Some 1, previewPoint = None\<rparr>) =
     Some (2000, 0)"
  using preview_point_bounded[where
      es = "[Drop (Some (FromPalette ''Start'')) (0, 0) 150 150, StartHandleClick 1,
             MouseMove (Some (10, 20)) 2500 5]" and x = 2000 and y = 0 and s = init and
      surface = "Some (10, 20)" and clientX = 2500 and clientY = 5]
    preview_point_bounded[where
      s = "\<lparr>items = [], connections = [], nextId = 2, pendingSourceId = Some 1, previewPoint = None\<rparr>"
      and src = 1 and rect = "(10, 20)" and clientX = 2500 and clientY = 5]
  unfolding run_armed_moved
  by (simp add: init_def)

end
